theory Spec2Isabelle
  imports Main "HOL-Library.Multiset"
begin

section \<open>Go string primitives used by the controller utilities\<close>

text \<open>
  Go strings are byte sequences; \<open>string\<close> (a list of 8-bit characters) models them.
  The separators the file uses (\<open>"."\<close> and \<open>"/"\<close>) are single bytes, so
  \<open>strings.Split\<close> and \<open>strings.TrimSuffix\<close> are modelled for a one-byte
  separator.
\<close>

text \<open>\<open>strings.TrimSuffix(s, sep)\<close> for a one-byte \<open>sep\<close>: one trailing
  occurrence is removed, if there is one.\<close>

definition TrimSuffix :: "string \<Rightarrow> char \<Rightarrow> string" where
  "TrimSuffix s c = (if s \<noteq> [] \<and> last s = c then butlast s else s)"

text \<open>\<open>strings.Split(s, sep)\<close> for a one-byte \<open>sep\<close>: the substrings between the
  separators, in order. The result has one more element than \<open>s\<close> has
  separators; in particular the empty string gives one empty substring.\<close>

fun Split :: "string \<Rightarrow> char \<Rightarrow> string list" where
  "Split [] c = [[]]"
| "Split (x # xs) c =
     (if x = c then [] # Split xs c
      else (case Split xs c of
              [] \<Rightarrow> [[x]]
            | p # ps \<Rightarrow> (x # p) # ps))"

section \<open>Hostname matching\<close>

text \<open>Run-time panics of the Go code are values of the model.\<close>

datatype panic = IndexOutOfRange | CloseOfClosedChannel

text \<open>
  The \<open>for i, patternPart := range patternParts\<close> loop of \<open>matchHostnames\<close>:
  \<open>i\<close> is the index of the head of the remaining pattern labels. Reading
  \<open>hostParts[i]\<close> out of range panics in Go.
\<close>

fun match_loop :: "nat \<Rightarrow> string list \<Rightarrow> string list \<Rightarrow> panic + bool" where
  "match_loop i [] hostParts = Inr True"
| "match_loop i (patternPart # rest) hostParts =
     (if i = 0 \<and> patternPart = ''*'' then match_loop (Suc i) rest hostParts
      else if \<not> i < length hostParts then Inl IndexOutOfRange
      else if patternPart \<noteq> hostParts ! i then Inr False
      else match_loop (Suc i) rest hostParts)"

definition matchHostnames :: "string \<Rightarrow> string \<Rightarrow> panic + bool" where
  "matchHostnames pattern0 host0 =
     (let host = TrimSuffix host0 CHR ''.'';
          pattern = TrimSuffix pattern0 CHR ''.''
      in if length pattern = 0 \<or> length host = 0 then Inr False
         else
           let patternParts = Split pattern CHR ''.'';
               hostParts = Split host CHR ''.''
           in if length patternParts \<noteq> length hostParts then Inr False
              else match_loop 0 patternParts hostParts)"

text \<open>\<open>isHostValid\<close>: the first matching common name ends the loop; a panic of
  \<open>matchHostnames\<close> would propagate.\<close>

fun isHostValid :: "string \<Rightarrow> string list \<Rightarrow> panic + bool" where
  "isHostValid host [] = Inr False"
| "isHostValid host (cn # cns) =
     (case matchHostnames cn host of
        Inl e \<Rightarrow> Inl e
      | Inr True \<Rightarrow> Inr True
      | Inr False \<Rightarrow> isHostValid host cns)"

text \<open>
  The matching rule in the words of the specification: strip one trailing dot from
  each input, require both to be non-empty, split into labels, require equal label
  counts, and compare position by position, where a first pattern label \<open>*\<close>
  matches any first host label.
\<close>

definition matches_spec :: "string \<Rightarrow> string \<Rightarrow> bool" where
  "matches_spec pattern host =
     (let p = TrimSuffix pattern CHR ''.'';
          h = TrimSuffix host CHR ''.'';
          pl = Split p CHR ''.'';
          hl = Split h CHR ''.''
      in p \<noteq> [] \<and> h \<noteq> [] \<and> length pl = length hl \<and>
         (\<forall>i < length pl. (i = 0 \<and> pl ! 0 = ''*'') \<or> pl ! i = hl ! i))"

section \<open>Parsing a namespace/name key\<close>

text \<open>
  \<open>parseNsName\<close> returns a triple in Go: namespace, name and error. The error of
  \<open>fmt.Errorf\<close> is modelled by its message; \<open>None\<close> is Go's \<open>nil\<close>. The verb
  \<open>%v\<close> prints a string as it is, between the two quote characters of the format.
\<close>

definition invalid_format :: "string \<Rightarrow> string" where
  "invalid_format input =
     ''invalid format (namespace/name) found in '' @ [CHR 0x27] @ input @ [CHR 0x27]"

definition parseNsName :: "string \<Rightarrow> string \<times> string \<times> string option" where
  "parseNsName input =
     (let nsName = Split input CHR ''/''
      in if length nsName \<noteq> 2 then ('''', '''', Some (invalid_format input))
         else (nsName ! 0, nsName ! 1, None))"

section \<open>Vocabulary for stating the hostname properties\<close>

text \<open>\<open>strings.HasSuffix(s, sep)\<close> for a one-byte \<open>sep\<close>.\<close>

definition HasSuffix :: "string \<Rightarrow> char \<Rightarrow> bool" where
  "HasSuffix s c = (s \<noteq> [] \<and> last s = c)"

text \<open>The labels \<open>matchHostnames\<close> compares: one trailing dot stripped, then split
  on dots.\<close>

definition labels :: "string \<Rightarrow> string list" where
  "labels s = Split (TrimSuffix s CHR ''.'') CHR ''.''"

section \<open>The fallback certificate\<close>

definition snakeOilPem :: string where
  "snakeOilPem = ''/etc/ssl/certs/ssl-cert-snakeoil.pem''"

definition snakeOilKey :: string where
  "snakeOilKey = ''/etc/ssl/private/ssl-cert-snakeoil.key''"

text \<open>
  The disk is a parameter: a map from a path to the bytes \<open>ioutil.ReadFile\<close>
  returns for it, \<open>None\<close> where the read returns an error (whatever the error is,
  the code only tests it against \<open>nil\<close>). \<open>string(cert)\<close> keeps the bytes.
  Besides the two strings the model returns the paths read, in order, so that the
  early return after a failed first read is visible.
\<close>

definition getFakeSSLCert :: "(string \<rightharpoonup> string) \<Rightarrow> (string \<times> string) \<times> string list" where
  "getFakeSSLCert disk =
     (case disk snakeOilPem of
        None \<Rightarrow> (('''', ''''), [snakeOilPem])
      | Some cert \<Rightarrow>
          (case disk snakeOilKey of
             None \<Rightarrow> (('''', ''''), [snakeOilPem, snakeOilKey])
           | Some key \<Rightarrow> ((cert, key), [snakeOilPem, snakeOilKey])))"

section \<open>The task queue\<close>

text \<open>
  \<open>workqueue.RateLimitingInterface\<close> is a Go interface of a package outside this
  file; the task queue only calls its methods. The model takes the methods as a
  parameter: a record of functions on the queue's state \<open>'q\<close>. \<open>Get\<close> blocks until
  it has an item or the queue is shut down; \<open>None\<close> stands for a call that never
  returns, otherwise the result is the item and the \<open>quit\<close> flag. The items are
  the keys that \<open>enqueue\<close> and \<open>requeue\<close> add, which are strings.
\<close>

record 'q RateLimitingInterface =
  Get :: "'q \<Rightarrow> ((string \<times> bool) \<times> 'q) option"
  Add :: "string \<Rightarrow> 'q \<Rightarrow> 'q"
  AddRateLimited :: "string \<Rightarrow> 'q \<Rightarrow> 'q"
  Forget :: "string \<Rightarrow> 'q \<Rightarrow> 'q"
  Done :: "string \<Rightarrow> 'q \<Rightarrow> 'q"
  ShutDown :: "'q \<Rightarrow> 'q"

text \<open>
  The struct \<open>taskQueue\<close>. Its fields \<open>queue\<close> and \<open>sync\<close> never change after
  construction; what changes is the state behind them, kept in \<open>tq_state\<close>: the
  queue's state, whether the channel \<open>workerDone\<close> has been closed, and the rest of
  the program's state \<open>'w\<close> that \<open>sync\<close> reads and writes. The callback is a
  closure, so it may also use the queue. It returns Go's \<open>error\<close>: \<open>None\<close> is
  \<open>nil\<close>, \<open>Some msg\<close> an error.
\<close>

record ('q, 'w) taskQueue =
  queue :: "'q RateLimitingInterface"
  sync :: "string \<Rightarrow> 'q \<times> 'w \<Rightarrow> string option \<times> 'q \<times> 'w"

record ('q, 'w) tq_state =
  qstate :: 'q
  workerDone :: bool
  world :: 'w

text \<open>\<open>enqueue\<close>: the key function is the package variable \<open>keyFunc\<close>, a parameter
  here; when it fails the object is dropped (the log line is not modelled).\<close>

definition enqueue ::
    "('q, 'w) taskQueue \<Rightarrow> ('obj \<Rightarrow> string + string) \<Rightarrow> 'obj \<Rightarrow> 'q \<Rightarrow> 'q" where
  "enqueue t keyFunc obj q =
     (case keyFunc obj of
        Inl err \<Rightarrow> q
      | Inr key \<Rightarrow> Add (queue t) key q)"

definition requeue :: "('q, 'w) taskQueue \<Rightarrow> string \<Rightarrow> 'q \<Rightarrow> 'q" where
  "requeue t key q = AddRateLimited (queue t) key q"

text \<open>
  One pass through the body of the \<open>for\<close> loop of \<open>worker\<close>. The pass either goes
  on to the next one, or waits in \<open>Get\<close> forever, or returns from \<open>worker\<close>
  after closing \<open>workerDone\<close>, or panics because the channel was closed before.
\<close>

datatype ('q, 'w) outcome =
    Continue "('q, 'w) tq_state"
  | Blocked
  | Returned "('q, 'w) tq_state"
  | Panicked panic

definition worker_body :: "('q, 'w) taskQueue \<Rightarrow> ('q, 'w) tq_state \<Rightarrow> ('q, 'w) outcome" where
  "worker_body t s =
     (case Get (queue t) (qstate s) of
        None \<Rightarrow> Blocked
      | Some ((key, quit), q1) \<Rightarrow>
          if quit then
            (if workerDone s then Panicked CloseOfClosedChannel
             else Returned (s\<lparr>qstate := q1, workerDone := True\<rparr>))
          else
            (case sync t key (q1, world s) of
               (err, q2, w2) \<Rightarrow>
                 let q3 = (case err of
                             Some e \<Rightarrow> requeue t key q2
                           | None \<Rightarrow> Forget (queue t) key q2)
                 in Continue (s\<lparr>qstate := Done (queue t) key q3, world := w2\<rparr>)))"

text \<open>
  The loop of \<open>worker\<close> may run forever, so it runs on fuel: \<open>worker n t s\<close> is
  \<open>None\<close> while the loop is still going after \<open>n\<close> passes, and otherwise the way
  it stopped.
\<close>

fun worker :: "nat \<Rightarrow> ('q, 'w) taskQueue \<Rightarrow> ('q, 'w) tq_state \<Rightarrow> ('q, 'w) outcome option" where
  "worker 0 t s = None"
| "worker (Suc n) t s =
     (case worker_body t s of
        Continue s' \<Rightarrow> worker n t s'
      | stopped \<Rightarrow> Some stopped)"

text \<open>The state at the start of pass number \<open>k\<close> (counting from 0), if the loop gets
  that far.\<close>

fun pass_start :: "nat \<Rightarrow> ('q, 'w) taskQueue \<Rightarrow> ('q, 'w) tq_state \<Rightarrow> ('q, 'w) tq_state option" where
  "pass_start 0 t s = Some s"
| "pass_start (Suc k) t s =
     (case worker_body t s of
        Continue s' \<Rightarrow> pass_start k t s'
      | stopped \<Rightarrow> None)"

text \<open>What \<open>Get\<close> answers at the start of a pass.\<close>

definition reports_quit :: "('q, 'w) taskQueue \<Rightarrow> ('q, 'w) tq_state \<Rightarrow> bool" where
  "reports_quit t s =
     (case Get (queue t) (qstate s) of
        Some ((key, quit), q1) \<Rightarrow> quit
      | None \<Rightarrow> False)"

definition hands_out_key :: "('q, 'w) taskQueue \<Rightarrow> ('q, 'w) tq_state \<Rightarrow> bool" where
  "hands_out_key t s =
     (case Get (queue t) (qstate s) of
        Some ((key, quit), q1) \<Rightarrow> \<not> quit
      | None \<Rightarrow> False)"

definition has_stopped :: "('q, 'w) outcome \<Rightarrow> bool" where
  "has_stopped r = (case r of Returned s \<Rightarrow> True | Panicked p \<Rightarrow> True | _ \<Rightarrow> False)"

subsection \<open>A scripted queue that records the calls made on it\<close>

text \<open>
  A stand-in for the queue, used to run the worker on concrete inputs: \<open>Get\<close>
  replays a script of answers (and never returns once the script is used up), and
  every method appends its call to a log.
\<close>

datatype call =
    GetCall
  | AddCall string
  | AddRateLimitedCall string
  | ForgetCall string
  | DoneCall string
  | ShutDownCall

record scripted =
  script :: "(string \<times> bool) list"
  calls :: "call list"

definition scripted_queue :: "scripted RateLimitingInterface" where
  "scripted_queue =
     \<lparr> Get = (\<lambda>q. case script q of
                    [] \<Rightarrow> None
                  | a # rest \<Rightarrow> Some (a, q\<lparr>script := rest, calls := calls q @ [GetCall]\<rparr>)),
       Add = (\<lambda>k q. q\<lparr>calls := calls q @ [AddCall k]\<rparr>),
       AddRateLimited = (\<lambda>k q. q\<lparr>calls := calls q @ [AddRateLimitedCall k]\<rparr>),
       Forget = (\<lambda>k q. q\<lparr>calls := calls q @ [ForgetCall k]\<rparr>),
       Done = (\<lambda>k q. q\<lparr>calls := calls q @ [DoneCall k]\<rparr>),
       ShutDown = (\<lambda>q. q\<lparr>calls := calls q @ [ShutDownCall]\<rparr>) \<rparr>"

text \<open>A callback that fails on the keys of a given list and counts its invocations
  in the world.\<close>

definition failing_on :: "string list \<Rightarrow> string \<Rightarrow> scripted \<times> nat \<Rightarrow> string option \<times> scripted \<times> nat" where
  "failing_on bad key qw =
     (if key \<in> set bad then Some ''sync failed'' else None, fst qw, Suc (snd qw))"

text \<open>A task queue on the scripted queue whose callback fails on one key, and a
  start state in which \<open>Get\<close> will hand out that key, then another key, then
  report the shutdown.\<close>

definition demo_taskQueue :: "(scripted, nat) taskQueue" where
  "demo_taskQueue = \<lparr> queue = scripted_queue, sync = failing_on [''default/bad''] \<rparr>"

definition demo_state :: "(scripted, nat) tq_state" where
  "demo_state =
     \<lparr> qstate = \<lparr> script = [(''default/bad'', False), (''default/good'', False), ('''', True)],
                  calls = [] \<rparr>,
       workerDone = False,
       world = 0 \<rparr>"

section \<open>The work queue as the specification describes it\<close>

text \<open>
  Modelled from the spec: the work queue behind \<open>t.queue\<close> (package
  \<open>workqueue\<close>: its constructor and its methods \<open>Add\<close>, \<open>Get\<close>, \<open>Done\<close> and
  \<open>ShutDown\<close>) is not part of the file. The specification's data model gives the
  queue a first-in first-out collection \<open>pending\<close> of the keys not yet dequeued,
  the set \<open>processing\<close> of the keys handed to the worker, a dirty mark for a key
  re-added while it is processing, and the one-way flag \<open>shutdown\<close>.
\<close>

record workqueue =
  pending :: "string list"
  processing :: "string set"
  dirty :: "string set"
  shutdown :: bool

text \<open>Modelled from the spec: the queue as its constructor leaves it, with nothing
  pending or processing and not shut down.\<close>

definition wq_new :: workqueue where
  "wq_new = \<lparr> pending = [], processing = {}, dirty = {}, shutdown = False \<rparr>"

text \<open>Modelled from the spec: the queue's \<open>Add\<close>. Adding is idempotent; after
  shutdown it is a silent no-op; a key that is being processed is only marked dirty,
  to be redelivered when the current attempt completes.\<close>

definition wq_Add :: "string \<Rightarrow> workqueue \<Rightarrow> workqueue" where
  "wq_Add k q =
     (if shutdown q then q
      else if k \<in> set (pending q) then q
      else if k \<in> processing q then q\<lparr>dirty := insert k (dirty q)\<rparr>
      else q\<lparr>pending := pending q @ [k]\<rparr>)"

text \<open>Modelled from the spec: the queue's \<open>Get\<close>. It hands out the oldest pending
  key, which becomes processing; on an empty queue it reports quit once the queue is
  shut down (the worker loop ends once the queue is drained) and blocks otherwise.\<close>

definition wq_Get :: "workqueue \<Rightarrow> ((string \<times> bool) \<times> workqueue) option" where
  "wq_Get q =
     (case pending q of
        k # rest \<Rightarrow> Some ((k, False), q\<lparr>pending := rest, processing := insert k (processing q)\<rparr>)
      | [] \<Rightarrow> if shutdown q then Some (('''', True), q) else None)"

text \<open>Modelled from the spec: the queue's \<open>Done\<close>. The key stops being processed;
  a key marked dirty meanwhile goes straight back to pending.\<close>

definition wq_Done :: "string \<Rightarrow> workqueue \<Rightarrow> workqueue" where
  "wq_Done k q =
     (if k \<in> dirty q
      then q\<lparr>pending := pending q @ [k], processing := processing q - {k},
             dirty := dirty q - {k}\<rparr>
      else q\<lparr>processing := processing q - {k}\<rparr>)"

text \<open>Modelled from the spec: the queue's \<open>ShutDown\<close>.\<close>

definition wq_ShutDown :: "workqueue \<Rightarrow> workqueue" where
  "wq_ShutDown q = q\<lparr>shutdown := True\<rparr>"

text \<open>Modelled from the spec: the queue as an implementation of the interface the
  task queue calls. The rate-limited path (\<open>AddRateLimited\<close>, \<open>Forget\<close>) stays
  a parameter.\<close>

definition spec_queue ::
    "(string \<Rightarrow> workqueue \<Rightarrow> workqueue) \<Rightarrow> (string \<Rightarrow> workqueue \<Rightarrow> workqueue)
       \<Rightarrow> workqueue RateLimitingInterface" where
  "spec_queue addRateLimited forget =
     \<lparr> Get = wq_Get, Add = wq_Add, AddRateLimited = addRateLimited, Forget = forget,
       Done = wq_Done, ShutDown = wq_ShutDown \<rparr>"

text \<open>Modelled from the spec: the data model's invariant. No key is pending twice,
  no key is pending while it is processing, and only processing keys are marked
  dirty.\<close>

definition wq_inv :: "workqueue \<Rightarrow> bool" where
  "wq_inv q \<longleftrightarrow>
     distinct (pending q) \<and> set (pending q) \<inter> processing q = {} \<and> dirty q \<subseteq> processing q"

text \<open>A key function for running \<open>enqueue\<close> on concrete objects: an object is a
  namespace, a name and a resource version, and an object without a name has no
  key.\<close>

definition demo_keyFunc :: "string \<times> string \<times> nat \<Rightarrow> string + string" where
  "demo_keyFunc obj =
     (case obj of (namespace, name, version) \<Rightarrow>
        if name = [] then Inl ''object has no name''
        else Inr (namespace @ ''/'' @ name))"

definition dedup_taskQueue :: "(workqueue, unit) taskQueue" where
  "dedup_taskQueue =
     \<lparr> queue = spec_queue (\<lambda>k q. q) (\<lambda>k q. q), sync = (\<lambda>key qw. (None, qw)) \<rparr>"

section \<open>Properties of the string primitives\<close>

lemma Split_not_Nil: "Split s c \<noteq> []"
  by (induction s) (auto split: list.splits)

lemma length_Split: "length (Split s c) = Suc (count_list s c)"
  by (induction s) (auto split: list.splits simp: Split_not_Nil)

lemma Split_no_sep: "c \<notin> set s \<Longrightarrow> Split s c = [s]"
  by (induction s) auto

lemma Split_append_sep: "c \<notin> set a \<Longrightarrow> Split (a @ c # b) c = a # Split b c"
  by (induction a) auto

lemma TrimSuffix_snoc: "TrimSuffix (s @ [c]) c = s"
  by (simp add: TrimSuffix_def)

lemma TrimSuffix_id: "s = [] \<or> last s \<noteq> c \<Longrightarrow> TrimSuffix s c = s"
  by (auto simp: TrimSuffix_def)

section \<open>Hostname matching: the code against the specification's rule\<close>

text \<open>The loop, started at index \<open>i\<close> on label lists of matching lengths, never
  reads out of range and decides the position-wise comparison.\<close>

lemma match_loop_spec:
  "length hs = i + length ps \<Longrightarrow>
   match_loop i ps hs =
     Inr (\<forall>j < length ps. (i + j = 0 \<and> ps ! j = ''*'') \<or> ps ! j = hs ! (i + j))"
proof (induction ps arbitrary: i)
  case Nil
  then show ?case by simp
next
  case (Cons p ps)
  have IH: "match_loop (Suc i) ps hs = Inr (\<forall>j < length ps. ps ! j = hs ! (Suc i + j))"
    using Cons.IH [of "Suc i"] Cons.prems by simp
  have split:
    "(\<forall>j < length (p # ps). (i + j = 0 \<and> (p # ps) ! j = ''*'') \<or> (p # ps) ! j = hs ! (i + j))
     \<longleftrightarrow> ((i = 0 \<and> p = ''*'') \<or> p = hs ! i) \<and> (\<forall>j < length ps. ps ! j = hs ! (Suc i + j))"
    by (auto simp: less_Suc_eq_0_disj)
  show ?case
    unfolding split using IH Cons.prems by auto
qed

lemma matchHostnames_spec: "matchHostnames pattern host = Inr (matches_spec pattern host)"
  using match_loop_spec [of "Split (TrimSuffix host CHR ''.'') CHR ''.''" 0
      "Split (TrimSuffix pattern CHR ''.'') CHR ''.''"]
  by (auto simp: matchHostnames_def matches_spec_def Let_def)

text \<open>
  Claim C1. For every pattern and host, \<open>matchHostnames\<close> returns (without
  panicking) true exactly when, after one trailing dot is stripped from each input,
  both are non-empty, they split on dots into the same number of labels, and the labels
  agree at every position, a first pattern label \<open>*\<close> matching any first host label.
  \<open>*.example.com\<close> matches \<open>foo.example.com\<close> but neither \<open>example.com\<close> nor
  \<open>a.b.example.com\<close>, and an empty pattern or an empty host never matches.
\<close>

theorem matchHostnames_iff_spec:
  "matchHostnames pattern host = Inr (matches_spec pattern host) \<and>
   matchHostnames ''*.example.com'' ''foo.example.com'' = Inr True \<and>
   matchHostnames ''*.example.com'' ''example.com'' = Inr False \<and>
   matchHostnames ''*.example.com'' ''a.b.example.com'' = Inr False \<and>
   matchHostnames '''' host = Inr False \<and>
   matchHostnames pattern '''' = Inr False"
proof -
  have ex1: "matchHostnames ''*.example.com'' ''foo.example.com'' = Inr True"
    by (simp add: matchHostnames_def TrimSuffix_def)
  have ex2: "matchHostnames ''*.example.com'' ''example.com'' = Inr False"
    by (simp add: matchHostnames_def TrimSuffix_def)
  have ex3: "matchHostnames ''*.example.com'' ''a.b.example.com'' = Inr False"
    by (simp add: matchHostnames_def TrimSuffix_def)
  have e1: "matchHostnames '''' host = Inr False"
    by (simp add: matchHostnames_def TrimSuffix_def Let_def)
  have e2: "matchHostnames pattern '''' = Inr False"
    by (simp add: matchHostnames_def TrimSuffix_def Let_def)
  show ?thesis
    using matchHostnames_spec ex1 ex2 ex3 e1 e2 by simp
qed

theorem matchHostnames_iff_spec_witness:
  "matches_spec ''*.example.com'' ''foo.example.com'' \<and>
   \<not> matches_spec ''*.example.com'' ''example.com'' \<and>
   \<not> matches_spec ''foo.example.com'' ''bar.example.com''"
proof -
  have a: "matchHostnames ''foo.example.com'' ''bar.example.com'' = Inr False"
    by (simp add: matchHostnames_def TrimSuffix_def)
  show ?thesis
    using matchHostnames_iff_spec [of "''*.example.com''" "''foo.example.com''"]
      matchHostnames_iff_spec [of "''*.example.com''" "''example.com''"]
      matchHostnames_iff_spec [of "''foo.example.com''" "''bar.example.com''"] a
    by simp
qed

section \<open>Parsing a namespace/name key: exactly one separator\<close>

text \<open>A string with exactly one separator splits around it into two parts that
  contain no separator.\<close>

lemma split_one_sep:
  assumes "count_list s c = 1"
  shows "\<exists>a b. s = a @ c # b \<and> c \<notin> set a \<and> c \<notin> set b"
  using assms
proof (induction s)
  case Nil
  then show ?case by simp
next
  case (Cons x xs)
  show ?case
  proof (cases "x = c")
    case True
    with Cons.prems have "c \<notin> set xs" by (simp add: count_list_0_iff)
    with True show ?thesis by (intro exI [of _ "[]"] exI [of _ xs]) simp
  next
    case False
    with Cons obtain a b where "xs = a @ c # b" "c \<notin> set a" "c \<notin> set b" by auto
    with False show ?thesis by (intro exI [of _ "x # a"] exI [of _ b]) simp
  qed
qed

text \<open>
  Claim C6. \<open>parseNsName\<close> returns the substrings before and after the slash, and
  no error, when the input has exactly one slash; with no slash or more than one it
  returns two empty strings and an error whose message quotes the input.
  \<open>default/my-ingress\<close> parses to \<open>default\<close> and \<open>my-ingress\<close>;
  \<open>bad-input\<close> and \<open>a/b/c\<close> are errors.
\<close>

theorem parseNsName_one_separator:
  "(count_list input CHR ''/'' = 1 \<longrightarrow>
      (\<exists>ns name. input = ns @ ''/'' @ name \<and> parseNsName input = (ns, name, None))) \<and>
   (count_list input CHR ''/'' \<noteq> 1 \<longrightarrow>
      parseNsName input = ('''', '''', Some (invalid_format input))) \<and>
   parseNsName ''default/my-ingress'' = (''default'', ''my-ingress'', None) \<and>
   parseNsName ''bad-input'' = ('''', '''', Some (invalid_format ''bad-input'')) \<and>
   parseNsName ''a/b/c'' = ('''', '''', Some (invalid_format ''a/b/c''))"
proof -
  have one: "\<exists>ns name. input = ns @ ''/'' @ name \<and> parseNsName input = (ns, name, None)"
    if "count_list input CHR ''/'' = 1"
  proof -
    from split_one_sep [OF that] obtain a b
      where ab: "input = a @ CHR ''/'' # b" "CHR ''/'' \<notin> set a" "CHR ''/'' \<notin> set b"
      by blast
    then have "Split input CHR ''/'' = [a, b]"
      by (simp add: Split_append_sep Split_no_sep)
    then have "parseNsName input = (a, b, None)"
      by (simp add: parseNsName_def)
    with ab(1) show ?thesis by auto
  qed
  have other: "parseNsName input = ('''', '''', Some (invalid_format input))"
    if "count_list input CHR ''/'' \<noteq> 1"
    using that by (simp add: parseNsName_def length_Split)
  have ex1: "parseNsName ''default/my-ingress'' = (''default'', ''my-ingress'', None)"
    by (simp add: parseNsName_def)
  have ex2: "parseNsName ''bad-input'' = ('''', '''', Some (invalid_format ''bad-input''))"
    by (simp add: parseNsName_def)
  have ex3: "parseNsName ''a/b/c'' = ('''', '''', Some (invalid_format ''a/b/c''))"
    by (simp add: parseNsName_def)
  show ?thesis using one other ex1 ex2 ex3 by blast
qed

theorem parseNsName_one_separator_witness:
  "count_list ''kube-system/nginx'' CHR ''/'' = 1 \<and>
   (\<exists>ns name. ''kube-system/nginx'' = ns @ ''/'' @ name \<and>
       parseNsName ''kube-system/nginx'' = (ns, name, None)) \<and>
   count_list ''a/b/c'' CHR ''/'' \<noteq> 1 \<and>
   parseNsName ''a/b/c'' = ('''', '''', Some (invalid_format ''a/b/c''))"
proof -
  have h1: "count_list ''kube-system/nginx'' CHR ''/'' = 1" by simp
  have h2: "count_list ''a/b/c'' CHR ''/'' \<noteq> 1" by simp
  show ?thesis
    using h1 h2 parseNsName_one_separator [of "''kube-system/nginx''"]
      parseNsName_one_separator [of "''a/b/c''"]
    by blast
qed

section \<open>Host validity: some pattern matches\<close>

lemma isHostValid_exists:
  "isHostValid host cns = Inr (\<exists>cn \<in> set cns. matchHostnames cn host = Inr True)"
proof (induction cns)
  case Nil
  show ?case by simp
next
  case (Cons cn cns)
  show ?case
  proof (cases "matches_spec cn host")
    case True
    then show ?thesis by (simp add: matchHostnames_spec)
  next
    case False
    then show ?thesis using Cons.IH by (simp add: matchHostnames_spec)
  qed
qed

text \<open>
  Claim C7. \<open>isHostValid\<close> returns true exactly when \<open>matchHostnames\<close> succeeds
  for at least one pattern of the list, so the result does not depend on the order of
  the list: a reordered list (the same multiset of patterns), and more generally any
  list with the same set of patterns, gives the same result. Host
  \<open>foo.example.com\<close> is valid for the patterns \<open>bar.example.com\<close>,
  \<open>*.example.com\<close>.
\<close>

theorem isHostValid_iff_some_match:
  "isHostValid host cns = Inr (\<exists>cn \<in> set cns. matchHostnames cn host = Inr True) \<and>
   (mset cns' = mset cns \<longrightarrow> isHostValid host cns' = isHostValid host cns) \<and>
   (set cns' = set cns \<longrightarrow> isHostValid host cns' = isHostValid host cns) \<and>
   isHostValid ''foo.example.com'' [''bar.example.com'', ''*.example.com''] = Inr True"
proof -
  have ex: "isHostValid ''foo.example.com'' [''bar.example.com'', ''*.example.com''] = Inr True"
    by (simp add: matchHostnames_def TrimSuffix_def)
  have ord: "isHostValid host cns' = isHostValid host cns" if "set cns' = set cns"
    using that by (simp add: isHostValid_exists)
  have perm: "isHostValid host cns' = isHostValid host cns" if "mset cns' = mset cns"
    using ord mset_eq_setD [OF that] by simp
  show ?thesis using isHostValid_exists ex ord perm by blast
qed

theorem isHostValid_iff_some_match_witness:
  "mset [''*.example.com'', ''bar.example.com''] = mset [''bar.example.com'', ''*.example.com''] \<and>
   isHostValid ''foo.example.com'' [''*.example.com'', ''bar.example.com''] = Inr True \<and>
   isHostValid ''foo.example.com'' [''bar.example.com''] = Inr False"
proof -
  have h: "mset [''*.example.com'', ''bar.example.com''] = mset [''bar.example.com'', ''*.example.com'']"
    by (simp add: add_mset_commute)
  have m: "matchHostnames ''bar.example.com'' ''foo.example.com'' = Inr False"
    by (simp add: matchHostnames_def TrimSuffix_def)
  show ?thesis
    using h m
      isHostValid_iff_some_match [of "''foo.example.com''" "[''bar.example.com'', ''*.example.com'']"
        "[''*.example.com'', ''bar.example.com'']"]
      isHostValid_iff_some_match [of "''foo.example.com''" "[''bar.example.com'']"]
    by simp
qed

section \<open>Trailing-dot tolerance\<close>

text \<open>
  Claim C8 as stated (a trailing dot may be appended to any pattern or host without
  changing the result) fails where the string already ends in a dot: only one dot is
  stripped, so the second one leaves an empty last label.
\<close>

theorem trailing_dot_counterexample:
  "matchHostnames ''a.'' ''a'' = Inr True \<and> matchHostnames (''a.'' @ ''.'') ''a'' = Inr False \<and>
   matchHostnames ''a'' ''a.'' = Inr True \<and> matchHostnames ''a'' (''a.'' @ ''.'') = Inr False"
  by (simp add: matchHostnames_def TrimSuffix_def)

lemma TrimSuffix_append_dot: "\<not> HasSuffix s c \<Longrightarrow> TrimSuffix (s @ [c]) c = TrimSuffix s c"
  by (auto simp: TrimSuffix_def HasSuffix_def)

text \<open>
  Claim C8, amended. For every pattern that does not already end in a dot, appending
  one trailing dot to the pattern does not change the result of \<open>matchHostnames\<close>;
  likewise for every host that does not already end in a dot. In particular
  \<open>example.com.\<close> matches \<open>example.com\<close>.
\<close>

theorem trailing_dot_equivalent:
  "(\<not> HasSuffix pattern CHR ''.'' \<longrightarrow>
      matchHostnames (pattern @ ''.'') host = matchHostnames pattern host) \<and>
   (\<not> HasSuffix host CHR ''.'' \<longrightarrow>
      matchHostnames pattern (host @ ''.'') = matchHostnames pattern host) \<and>
   matchHostnames ''example.com.'' ''example.com'' = Inr True"
proof -
  have p: "matchHostnames (pattern @ ''.'') host = matchHostnames pattern host"
    if "\<not> HasSuffix pattern CHR ''.''"
    using TrimSuffix_append_dot [OF that] by (simp add: matchHostnames_def)
  have h: "matchHostnames pattern (host @ ''.'') = matchHostnames pattern host"
    if "\<not> HasSuffix host CHR ''.''"
    using TrimSuffix_append_dot [OF that] by (simp add: matchHostnames_def)
  have ex: "matchHostnames ''example.com.'' ''example.com'' = Inr True"
    by (simp add: matchHostnames_def TrimSuffix_def)
  show ?thesis using p h ex by blast
qed

theorem trailing_dot_equivalent_witness:
  "\<not> HasSuffix ''example.com'' CHR ''.'' \<and>
   matchHostnames (''example.com'' @ ''.'') ''example.com'' = matchHostnames ''example.com'' ''example.com'' \<and>
   matchHostnames ''example.com'' (''example.com'' @ ''.'') = matchHostnames ''example.com'' ''example.com'' \<and>
   matchHostnames ''example.com'' ''example.com'' = Inr True"
proof -
  have h: "\<not> HasSuffix ''example.com'' CHR ''.''" by (simp add: HasSuffix_def)
  have m: "matchHostnames ''example.com'' ''example.com'' = Inr True"
    by (simp add: matchHostnames_def TrimSuffix_def)
  show ?thesis
    using h m trailing_dot_equivalent [of "''example.com''" "''example.com''"] by blast
qed

section \<open>The wildcard is the whole leftmost label only\<close>

text \<open>
  Claim C10. The wildcard is special only as the whole leftmost label: the bare
  pattern \<open>*\<close> matches every non-empty host without a dot; where the pattern has
  \<open>*\<close> as a label at a position other than the first, a matching host has the
  label \<open>*\<close> at that position; and a first pattern label other than \<open>*\<close>
  must equal the host's first label. \<open>foo.*\<close> does not match \<open>foo.bar\<close> and
  matches \<open>foo.*\<close>.
\<close>

theorem wildcard_leftmost_whole_label:
  "(host \<noteq> [] \<and> CHR ''.'' \<notin> set host \<longrightarrow> matchHostnames ''*'' host = Inr True) \<and>
   (matchHostnames pattern host = Inr True \<and> 0 < i \<and> i < length (labels pattern) \<and>
      labels pattern ! i = ''*'' \<longrightarrow> i < length (labels host) \<and> labels host ! i = ''*'') \<and>
   (matchHostnames pattern host = Inr True \<and> labels pattern ! 0 \<noteq> ''*'' \<longrightarrow>
      labels host ! 0 = labels pattern ! 0) \<and>
   matchHostnames ''foo.*'' ''foo.bar'' = Inr False \<and>
   matchHostnames ''foo.*'' ''foo.*'' = Inr True"
proof -
  have bare: "matchHostnames ''*'' host = Inr True" if "host \<noteq> []" "CHR ''.'' \<notin> set host"
  proof -
    from that have "last host \<noteq> CHR ''.''" using last_in_set by metis
    then have "TrimSuffix host CHR ''.'' = host" by (simp add: TrimSuffix_def)
    with that show ?thesis
      by (simp add: matchHostnames_def TrimSuffix_def Split_no_sep)
  qed
  have lit: "i < length (labels host) \<and> labels host ! i = ''*''"
    if "matchHostnames pattern host = Inr True" "0 < i" "i < length (labels pattern)"
       "labels pattern ! i = ''*''"
    using that by (auto simp: matchHostnames_spec matches_spec_def labels_def Let_def)
  have first: "labels host ! 0 = labels pattern ! 0"
    if "matchHostnames pattern host = Inr True" "labels pattern ! 0 \<noteq> ''*''"
  proof -
    have "0 < length (labels pattern)" by (simp add: labels_def length_Split)
    with that show ?thesis
      by (auto simp: matchHostnames_spec matches_spec_def labels_def Let_def)
  qed
  have ex1: "matchHostnames ''foo.*'' ''foo.bar'' = Inr False"
    by (simp add: matchHostnames_def TrimSuffix_def)
  have ex2: "matchHostnames ''foo.*'' ''foo.*'' = Inr True"
    by (simp add: matchHostnames_def TrimSuffix_def)
  show ?thesis using bare lit first ex1 ex2 by blast
qed

theorem wildcard_leftmost_whole_label_witness:
  "''web'' \<noteq> [] \<and> CHR ''.'' \<notin> set ''web'' \<and> matchHostnames ''*'' ''web'' = Inr True \<and>
   matchHostnames ''a.*'' ''a.*.'' = Inr True \<and> (0::nat) < 1 \<and> 1 < length (labels ''a.*'') \<and>
   labels ''a.*'' ! 1 = ''*'' \<and> labels ''a.*'' ! 0 \<noteq> ''*'' \<and>
   1 < length (labels ''a.*.'') \<and> labels ''a.*.'' ! 1 = ''*'' \<and>
   labels ''a.*.'' ! 0 = labels ''a.*'' ! 0"
proof -
  have h1: "''web'' \<noteq> [] \<and> CHR ''.'' \<notin> set ''web''" by simp
  have h2: "matchHostnames ''a.*'' ''a.*.'' = Inr True"
    by (simp add: matchHostnames_def TrimSuffix_def)
  have h3: "(0::nat) < 1 \<and> 1 < length (labels ''a.*'') \<and> labels ''a.*'' ! 1 = ''*''"
    by (simp add: labels_def TrimSuffix_def)
  have h4: "labels ''a.*'' ! 0 \<noteq> ''*''"
    by (simp add: labels_def TrimSuffix_def)
  have bare: "matchHostnames ''*'' ''web'' = Inr True"
    using h1 wildcard_leftmost_whole_label [where host = "''web''"] by blast
  have lit: "1 < length (labels ''a.*.'') \<and> labels ''a.*.'' ! 1 = ''*'' \<and>
      labels ''a.*.'' ! 0 = labels ''a.*'' ! 0"
    using h2 h3 h4
      wildcard_leftmost_whole_label [where host = "''a.*.''" and pattern = "''a.*''" and i = 1]
    by blast
  show ?thesis using h1 h2 h3 h4 bare lit by blast
qed

section \<open>The fallback certificate: both files or nothing\<close>

text \<open>
  Claim C9. \<open>getFakeSSLCert\<close> reads the certificate path and then the key path and
  returns their contents as a pair; when either read fails the pair is two empty
  strings, never one file's contents beside an empty string. The result is always a
  pair of strings: no error is returned and nothing panics.
\<close>

theorem getFakeSSLCert_all_or_nothing:
  "(disk snakeOilPem = Some cert \<and> disk snakeOilKey = Some key \<longrightarrow>
      getFakeSSLCert disk = ((cert, key), [snakeOilPem, snakeOilKey])) \<and>
   (disk snakeOilPem = None \<or> disk snakeOilKey = None \<longrightarrow>
      fst (getFakeSSLCert disk) = ('''', '''')) \<and>
   (disk snakeOilPem = None \<longrightarrow> snd (getFakeSSLCert disk) = [snakeOilPem])"
  by (auto simp: getFakeSSLCert_def split: option.splits)

theorem getFakeSSLCert_all_or_nothing_witness:
  "getFakeSSLCert [snakeOilPem \<mapsto> ''CERT'', snakeOilKey \<mapsto> ''KEY'']
     = ((''CERT'', ''KEY''), [snakeOilPem, snakeOilKey]) \<and>
   fst (getFakeSSLCert [snakeOilPem \<mapsto> ''CERT'']) = ('''', '''') \<and>
   fst (getFakeSSLCert [snakeOilKey \<mapsto> ''KEY'']) = ('''', '''') \<and>
   snd (getFakeSSLCert [snakeOilKey \<mapsto> ''KEY'']) = [snakeOilPem]"
proof -
  have ne: "snakeOilPem \<noteq> snakeOilKey"
    by (simp add: snakeOilPem_def snakeOilKey_def)
  have both: "[snakeOilPem \<mapsto> ''CERT'', snakeOilKey \<mapsto> ''KEY''] snakeOilPem = Some ''CERT'' \<and>
      [snakeOilPem \<mapsto> ''CERT'', snakeOilKey \<mapsto> ''KEY''] snakeOilKey = Some ''KEY''"
    using ne by simp
  have nokey: "[snakeOilPem \<mapsto> ''CERT''] snakeOilKey = None"
    using ne by simp
  have nopem: "[snakeOilKey \<mapsto> ''KEY''] snakeOilPem = None"
    using ne by simp
  show ?thesis
    using both nokey nopem
      getFakeSSLCert_all_or_nothing [of "[snakeOilPem \<mapsto> ''CERT'', snakeOilKey \<mapsto> ''KEY'']" "''CERT''" "''KEY''"]
      getFakeSSLCert_all_or_nothing [of "[snakeOilPem \<mapsto> ''CERT'']"]
      getFakeSSLCert_all_or_nothing [of "[snakeOilKey \<mapsto> ''KEY'']"]
    by blast
qed

section \<open>The worker loop\<close>

text \<open>What one pass does with the answers of \<open>Get\<close> and \<open>sync\<close>.\<close>

lemma worker_body_error:
  assumes "Get (queue t) (qstate s) = Some ((key, False), q1)"
    and "sync t key (q1, world s) = (Some err, q2, w2)"
  shows "worker_body t s =
     Continue (s\<lparr>qstate := Done (queue t) key (AddRateLimited (queue t) key q2), world := w2\<rparr>)"
  using assms by (simp add: worker_body_def requeue_def)

lemma worker_body_success:
  assumes "Get (queue t) (qstate s) = Some ((key, False), q1)"
    and "sync t key (q1, world s) = (None, q2, w2)"
  shows "worker_body t s =
     Continue (s\<lparr>qstate := Done (queue t) key (Forget (queue t) key q2), world := w2\<rparr>)"
  using assms by (simp add: worker_body_def)

lemma worker_body_stops_iff: "has_stopped (worker_body t s) \<longleftrightarrow> reports_quit t s"
  by (auto simp: worker_body_def has_stopped_def reports_quit_def Let_def
      split: option.splits prod.splits)

lemma worker_body_continues_iff:
  "(\<exists>s'. worker_body t s = Continue s') \<longleftrightarrow> hands_out_key t s"
  by (auto simp: worker_body_def hands_out_key_def Let_def split: option.splits prod.splits)

text \<open>The channel \<open>workerDone\<close> is closed in the quit branch only, by the pass that
  returns.\<close>

lemma worker_body_Continue_workerDone:
  "worker_body t s = Continue s' \<Longrightarrow> workerDone s' = workerDone s"
  by (auto simp: worker_body_def Let_def split: option.splits prod.splits if_splits)

lemma worker_body_Returned_workerDone:
  "worker_body t s = Returned s' \<Longrightarrow> \<not> workerDone s \<and> workerDone s' \<and> reports_quit t s"
  by (auto simp: worker_body_def reports_quit_def Let_def
      split: option.splits prod.splits if_splits)

text \<open>The loop stops within \<open>n\<close> passes exactly when one of its first \<open>n\<close>
  passes does not go on to the next.\<close>

lemma worker_Some_iff:
  "worker n t s = Some r \<longleftrightarrow>
     (\<exists>k < n. \<exists>s'. pass_start k t s = Some s' \<and> worker_body t s' = r \<and> (\<forall>s''. r \<noteq> Continue s''))"
proof (induction n arbitrary: s)
  case 0
  show ?case by simp
next
  case (Suc n)
  show ?case
  proof (cases "worker_body t s")
    case (Continue s1)
    have "worker (Suc n) t s = Some r \<longleftrightarrow> worker n t s1 = Some r"
      using Continue by simp
    also have "\<dots> \<longleftrightarrow> (\<exists>k < n. \<exists>s'. pass_start k t s1 = Some s' \<and> worker_body t s' = r \<and> (\<forall>s''. r \<noteq> Continue s''))"
      by (rule Suc.IH)
    also have "\<dots> \<longleftrightarrow> (\<exists>k < Suc n. \<exists>s'. pass_start k t s = Some s' \<and> worker_body t s' = r \<and> (\<forall>s''. r \<noteq> Continue s''))"
      (is "?L \<longleftrightarrow> ?R")
    proof
      assume ?L
      then obtain k s' where "k < n" "pass_start k t s1 = Some s'" "worker_body t s' = r" "\<forall>s''. r \<noteq> Continue s''"
        by blast
      then have "Suc k < Suc n \<and> pass_start (Suc k) t s = Some s' \<and> worker_body t s' = r \<and> (\<forall>s''. r \<noteq> Continue s'')"
        using Continue by simp
      then show ?R by blast
    next
      assume ?R
      then obtain k s' where k: "k < Suc n" "pass_start k t s = Some s'" "worker_body t s' = r" "\<forall>s''. r \<noteq> Continue s''"
        by blast
      show ?L
      proof (cases k)
        case 0
        with k Continue show ?thesis by simp
      next
        case (Suc j)
        with k Continue have "j < n \<and> pass_start j t s1 = Some s' \<and> worker_body t s' = r \<and> (\<forall>s''. r \<noteq> Continue s'')"
          by simp
        then show ?thesis by blast
      qed
    qed
    finally show ?thesis .
  next
    case Blocked
    have "pass_start k t s = Some s' \<longleftrightarrow> k = 0 \<and> s' = s" for k s'
      using Blocked by (cases k) auto
    then show ?thesis using Blocked by auto
  next
    case (Returned s1)
    have "pass_start k t s = Some s' \<longleftrightarrow> k = 0 \<and> s' = s" for k s'
      using Returned by (cases k) auto
    then show ?thesis using Returned by auto
  next
    case (Panicked p)
    have "pass_start k t s = Some s' \<longleftrightarrow> k = 0 \<and> s' = s" for k s'
      using Panicked by (cases k) auto
    then show ?thesis using Panicked by auto
  qed
qed

lemma worker_keeps_going:
  "(\<forall>k < n. \<forall>s'. pass_start k t s = Some s' \<longrightarrow> hands_out_key t s') \<Longrightarrow> worker n t s = None"
proof (rule ccontr)
  assume h: "\<forall>k < n. \<forall>s'. pass_start k t s = Some s' \<longrightarrow> hands_out_key t s'"
  assume "worker n t s \<noteq> None"
  then obtain r where "worker n t s = Some r" by auto
  then obtain k s' where k: "k < n" "pass_start k t s = Some s'" "worker_body t s' = r" "\<forall>s''. r \<noteq> Continue s''"
    unfolding worker_Some_iff by blast
  with h have "hands_out_key t s'" by blast
  then obtain s'' where "worker_body t s' = Continue s''"
    using worker_body_continues_iff by blast
  with k show False by blast
qed

text \<open>
  Claim C3. In every pass of the worker loop: when \<open>Get\<close> hands out a key and
  \<open>sync\<close> returns an error for it, the key is requeued through
  \<open>AddRateLimited\<close>, marked \<open>Done\<close>, and the loop goes on; when \<open>sync\<close>
  succeeds, \<open>Forget\<close> is called for the key instead. A pass ends the loop (by
  returning, or by panicking on the closed channel) exactly when \<open>Get\<close> reports
  quit; so a loop that has stopped after some passes stopped in a pass where \<open>Get\<close>
  reported quit (or is waiting in \<open>Get\<close>), and as long as \<open>Get\<close> hands out
  keys the loop is still running, whatever \<open>sync\<close> returns.
\<close>

theorem worker_requeues_errors_and_exits_on_quit:
  "(Get (queue t) (qstate s) = Some ((key, False), q1) \<and>
      sync t key (q1, world s) = (Some err, q2, w2) \<longrightarrow>
      worker_body t s =
        Continue (s\<lparr>qstate := Done (queue t) key (AddRateLimited (queue t) key q2),
                    world := w2\<rparr>)) \<and>
   (Get (queue t) (qstate s) = Some ((key, False), q1) \<and>
      sync t key (q1, world s) = (None, q2, w2) \<longrightarrow>
      worker_body t s =
        Continue (s\<lparr>qstate := Done (queue t) key (Forget (queue t) key q2),
                    world := w2\<rparr>)) \<and>
   (has_stopped (worker_body t s) \<longleftrightarrow> reports_quit t s) \<and>
   (worker n t s = Some r \<longrightarrow>
      (\<exists>k < n. \<exists>s'. pass_start k t s = Some s' \<and> worker_body t s' = r \<and>
         (r = Blocked \<or> has_stopped r \<and> reports_quit t s'))) \<and>
   ((\<forall>k < n. \<forall>s'. pass_start k t s = Some s' \<longrightarrow> hands_out_key t s') \<longrightarrow>
      worker n t s = None)"
proof -
  have stop: "\<exists>k < n. \<exists>s'. pass_start k t s = Some s' \<and> worker_body t s' = r \<and>
         (r = Blocked \<or> has_stopped r \<and> reports_quit t s')"
    if "worker n t s = Some r"
  proof -
    from that obtain k s' where k: "k < n" "pass_start k t s = Some s'"
        "worker_body t s' = r" "\<forall>s''. r \<noteq> Continue s''"
      unfolding worker_Some_iff by blast
    have "r = Blocked \<or> has_stopped r"
      using k(4) by (cases r) (auto simp: has_stopped_def)
    moreover have "has_stopped r \<Longrightarrow> reports_quit t s'"
      using worker_body_stops_iff [of t s'] k(3) by simp
    ultimately show ?thesis using k by blast
  qed
  show ?thesis
    using worker_body_error [of t s key q1 err q2 w2]
      worker_body_success [of t s key q1 q2 w2]
      worker_body_stops_iff [of t s] stop worker_keeps_going [of n t s]
    by blast
qed

text \<open>The claim on a run: the callback fails on the first key and succeeds on the
  second, and the third answer of \<open>Get\<close> is the shutdown.\<close>

lemmas demo_simps = demo_taskQueue_def demo_state_def scripted_queue_def failing_on_def

theorem worker_requeues_errors_and_exits_on_quit_witness:
  "worker_body demo_taskQueue demo_state =
     Continue \<lparr> qstate = \<lparr> script = [(''default/good'', False), ('''', True)],
                           calls = [GetCall, AddRateLimitedCall ''default/bad'',
                                    DoneCall ''default/bad''] \<rparr>,
                workerDone = False, world = 1 \<rparr> \<and>
   \<not> reports_quit demo_taskQueue demo_state \<and>
   worker 2 demo_taskQueue demo_state = None \<and>
   worker 3 demo_taskQueue demo_state =
     Some (Returned \<lparr> qstate = \<lparr> script = [],
                           calls = [GetCall, AddRateLimitedCall ''default/bad'',
                                    DoneCall ''default/bad'', GetCall,
                                    ForgetCall ''default/good'', DoneCall ''default/good'',
                                    GetCall] \<rparr>,
                workerDone = True, world = 2 \<rparr>) \<and>
   (\<exists>k < 3. \<exists>s'. pass_start k demo_taskQueue demo_state = Some s' \<and>
      reports_quit demo_taskQueue s')"
proof -
  let ?q1 = "\<lparr> script = [(''default/good'', False), ('''', True)], calls = [GetCall] \<rparr>"
  have get: "Get (queue demo_taskQueue) (qstate demo_state) = Some ((''default/bad'', False), ?q1)"
    by (simp add: demo_simps)
  have snc: "sync demo_taskQueue ''default/bad'' (?q1, world demo_state) =
      (Some ''sync failed'', ?q1, 1)"
    by (simp add: demo_simps)
  have body: "worker_body demo_taskQueue demo_state =
     Continue \<lparr> qstate = \<lparr> script = [(''default/good'', False), ('''', True)],
                           calls = [GetCall, AddRateLimitedCall ''default/bad'',
                                    DoneCall ''default/bad''] \<rparr>,
                workerDone = False, world = 1 \<rparr>"
    using get snc
      worker_requeues_errors_and_exits_on_quit
        [where t = demo_taskQueue and s = demo_state and key = "''default/bad''"
           and ?q1.0 = ?q1 and err = "''sync failed''" and ?q2.0 = ?q1 and ?w2.0 = 1]
    by (simp add: demo_simps)
  have nostop: "\<not> has_stopped (worker_body demo_taskQueue demo_state)"
    by (simp add: body has_stopped_def)
  have noquit: "\<not> reports_quit demo_taskQueue demo_state"
    using nostop
      worker_requeues_errors_and_exits_on_quit [where t = demo_taskQueue and s = demo_state]
    by blast
  have keys: "\<forall>k < 2. \<forall>s'. pass_start k demo_taskQueue demo_state = Some s' \<longrightarrow>
      hands_out_key demo_taskQueue s'"
    by (simp add: less_Suc_eq_0_disj numeral_2_eq_2 body)
       (simp add: demo_simps hands_out_key_def worker_body_def)
  have two: "worker 2 demo_taskQueue demo_state = None"
    using keys
      worker_requeues_errors_and_exits_on_quit
        [where t = demo_taskQueue and s = demo_state and n = 2]
    by blast
  have three: "worker 3 demo_taskQueue demo_state =
     Some (Returned \<lparr> qstate = \<lparr> script = [],
                           calls = [GetCall, AddRateLimitedCall ''default/bad'',
                                    DoneCall ''default/bad'', GetCall,
                                    ForgetCall ''default/good'', DoneCall ''default/good'',
                                    GetCall] \<rparr>,
                workerDone = True, world = 2 \<rparr>)"
    by (simp add: numeral_3_eq_3 body) (simp add: demo_simps worker_body_def requeue_def)
  have quit: "\<exists>k < 3. \<exists>s'. pass_start k demo_taskQueue demo_state = Some s' \<and>
      reports_quit demo_taskQueue s'"
  proof -
    let ?r = "Returned \<lparr> qstate = \<lparr> script = [],
                           calls = [GetCall, AddRateLimitedCall ''default/bad'',
                                    DoneCall ''default/bad'', GetCall,
                                    ForgetCall ''default/good'', DoneCall ''default/good'',
                                    GetCall] \<rparr>,
                workerDone = True, world = 2::nat \<rparr>"
    have "\<exists>k < 3. \<exists>s'. pass_start k demo_taskQueue demo_state = Some s' \<and>
        worker_body demo_taskQueue s' = ?r \<and>
        (?r = Blocked \<or> has_stopped ?r \<and> reports_quit demo_taskQueue s')"
      using three
        worker_requeues_errors_and_exits_on_quit
          [where t = demo_taskQueue and s = demo_state and n = 3 and r = ?r]
      by blast
    then show ?thesis by auto
  qed
  show ?thesis using body noquit two three quit by blast
qed

section \<open>Deduplication of enqueued keys\<close>

text \<open>The operations of the specification's queue keep its invariant, which holds
  for the new queue.\<close>

lemma wq_inv_new: "wq_inv wq_new"
  by (simp add: wq_inv_def wq_new_def)

lemma wq_inv_Add: "wq_inv q \<Longrightarrow> wq_inv (wq_Add k q)"
  by (auto simp: wq_inv_def wq_Add_def)

lemma wq_inv_Get: "wq_inv q \<Longrightarrow> wq_Get q = Some (a, q') \<Longrightarrow> wq_inv q'"
  by (auto simp: wq_inv_def wq_Get_def split: list.splits if_splits)

lemma wq_inv_Done: "wq_inv q \<Longrightarrow> wq_inv (wq_Done k q)"
  by (auto simp: wq_inv_def wq_Done_def)

lemma wq_inv_ShutDown: "wq_inv q \<Longrightarrow> wq_inv (wq_ShutDown q)"
  by (simp add: wq_inv_def wq_ShutDown_def)

text \<open>Adding a key again changes nothing.\<close>

lemma wq_Add_idem: "wq_Add k (wq_Add k q) = wq_Add k q"
  by (simp add: wq_Add_def)

text \<open>On this queue \<open>enqueue\<close> of an object with a key is \<open>Add\<close> of the key.\<close>

lemma enqueue_spec_queue:
  "queue t = spec_queue arl fg \<Longrightarrow> keyFunc obj = Inr key \<Longrightarrow>
   enqueue t keyFunc obj = wq_Add key"
  by (rule ext) (simp add: enqueue_def spec_queue_def)

lemma count_list_distinct:
  "distinct xs \<Longrightarrow> count_list xs k = (if k \<in> set xs then 1 else 0)"
  by (induction xs) auto

lemma count_pending_le_1: "wq_inv q \<Longrightarrow> count_list (pending q) k \<le> 1"
  by (simp add: wq_inv_def count_list_distinct)

lemma count_pending_Add:
  "wq_inv q \<Longrightarrow> \<not> shutdown q \<Longrightarrow> k \<notin> processing q \<Longrightarrow>
   count_list (pending (wq_Add k q)) k = 1"
  by (auto simp: wq_inv_def wq_Add_def count_list_distinct)

lemma fold_enqueue_absorbed:
  assumes "queue t = spec_queue arl fg" "\<forall>obj \<in> set objs. keyFunc obj = Inr key"
  shows "fold (enqueue t keyFunc) objs (wq_Add key q) = wq_Add key q"
  using assms(2)
proof (induction objs)
  case Nil
  show ?case by simp
next
  case (Cons obj objs)
  have "enqueue t keyFunc obj = wq_Add key"
    using Cons.prems assms(1) enqueue_spec_queue [of t arl fg keyFunc obj key] by simp
  with Cons show ?case by (simp add: wq_Add_idem)
qed

lemma enqueue_fold:
  assumes "queue t = spec_queue arl fg" "\<forall>obj \<in> set objs. keyFunc obj = Inr key" "objs \<noteq> []"
  shows "fold (enqueue t keyFunc) objs q = wq_Add key q"
proof -
  from assms(3) obtain obj rest where objs: "objs = obj # rest"
    by (cases objs) auto
  have first: "enqueue t keyFunc obj = wq_Add key"
    using objs assms(1,2) enqueue_spec_queue [of t arl fg keyFunc obj key] by simp
  have rest: "\<forall>obj \<in> set rest. keyFunc obj = Inr key"
    using objs assms(2) by simp
  show ?thesis
    using fold_enqueue_absorbed [OF assms(1) rest, of q] first objs by simp
qed

lemma enqueue_fold_inv:
  assumes "queue t = spec_queue arl fg" "\<forall>obj \<in> set objs. keyFunc obj = Inr key" "wq_inv q"
  shows "wq_inv (fold (enqueue t keyFunc) objs q)"
  using assms(2,3)
proof (induction objs arbitrary: q)
  case Nil
  then show ?case by simp
next
  case (Cons obj objs)
  have "enqueue t keyFunc obj = wq_Add key"
    using Cons.prems(1) assms(1) enqueue_spec_queue [of t arl fg keyFunc obj key] by simp
  with Cons show ?case by (simp add: wq_inv_Add)
qed

text \<open>
  Claim C5. Enqueuing the same key \<open>N\<close> times, for any \<open>N\<close> of at least one, with
  no dequeue in between, leaves exactly one pending occurrence of the key: the calls
  are \<open>enqueue\<close> on a non-empty list of objects that all have this key. The queue
  is the specification's, in a state satisfying its invariant and not shut down, and
  the key is not being processed. (For a key that is being processed the calls leave it
  marked dirty, and it is pending exactly once when the attempt is done; in every state
  of the queue the key is pending at most once.)
\<close>

theorem enqueue_dedup:
  "(queue t = spec_queue arl fg \<and> (\<forall>obj \<in> set objs. keyFunc obj = Inr key) \<and>
      objs \<noteq> [] \<and> wq_inv q \<and> \<not> shutdown q \<and> key \<notin> processing q \<longrightarrow>
      count_list (pending (fold (enqueue t keyFunc) objs q)) key = 1) \<and>
   (queue t = spec_queue arl fg \<and> (\<forall>obj \<in> set objs. keyFunc obj = Inr key) \<and>
      objs \<noteq> [] \<and> wq_inv q \<and> \<not> shutdown q \<and> key \<in> processing q \<longrightarrow>
      count_list (pending (fold (enqueue t keyFunc) objs q)) key = 0 \<and>
      count_list (pending (wq_Done key (fold (enqueue t keyFunc) objs q))) key = 1) \<and>
   (queue t = spec_queue arl fg \<and> (\<forall>obj \<in> set objs. keyFunc obj = Inr key) \<and>
      wq_inv q \<longrightarrow>
      wq_inv (fold (enqueue t keyFunc) objs q) \<and>
      count_list (pending (fold (enqueue t keyFunc) objs q)) key \<le> 1)"
proof -
  have waiting: "count_list (pending (fold (enqueue t keyFunc) objs q)) key = 1"
    if "queue t = spec_queue arl fg" "\<forall>obj \<in> set objs. keyFunc obj = Inr key"
      "objs \<noteq> []" "wq_inv q" "\<not> shutdown q" "key \<notin> processing q"
    using that enqueue_fold [of t arl fg objs keyFunc key q]
    by (simp add: count_pending_Add)
  have busy: "count_list (pending (fold (enqueue t keyFunc) objs q)) key = 0 \<and>
      count_list (pending (wq_Done key (fold (enqueue t keyFunc) objs q))) key = 1"
    if "queue t = spec_queue arl fg" "\<forall>obj \<in> set objs. keyFunc obj = Inr key"
      "objs \<noteq> []" "wq_inv q" "\<not> shutdown q" "key \<in> processing q"
  proof -
    have "key \<notin> set (pending q)"
      using that(4,6) by (auto simp: wq_inv_def)
    then show ?thesis
      using that enqueue_fold [of t arl fg objs keyFunc key q]
      by (simp add: wq_Add_def wq_Done_def count_list_0_iff)
  qed
  have always: "wq_inv (fold (enqueue t keyFunc) objs q) \<and>
      count_list (pending (fold (enqueue t keyFunc) objs q)) key \<le> 1"
    if "queue t = spec_queue arl fg" "\<forall>obj \<in> set objs. keyFunc obj = Inr key" "wq_inv q"
    using that enqueue_fold_inv [of t arl fg objs keyFunc key q]
      count_pending_le_1 [of "fold (enqueue t keyFunc) objs q" key]
    by simp
  show ?thesis using waiting busy always by blast
qed

text \<open>The claim on a run: three calls of \<open>enqueue\<close>, for three versions of the same
  object, on a new queue.\<close>

lemmas dedup_simps = dedup_taskQueue_def spec_queue_def demo_keyFunc_def wq_new_def
  wq_Add_def wq_Get_def wq_Done_def enqueue_def

theorem enqueue_dedup_witness:
  "queue dedup_taskQueue = spec_queue (\<lambda>k q. q) (\<lambda>k q. q) \<and>
   demo_keyFunc (''default'', ''web'', 1) = Inr ''default/web'' \<and>
   demo_keyFunc (''default'', ''web'', 2) = Inr ''default/web'' \<and>
   demo_keyFunc (''default'', ''web'', 3) = Inr ''default/web'' \<and>
   wq_inv wq_new \<and> \<not> shutdown wq_new \<and> ''default/web'' \<notin> processing wq_new \<and>
   count_list
     (pending (fold (enqueue dedup_taskQueue demo_keyFunc)
        [(''default'', ''web'', 1), (''default'', ''web'', 2), (''default'', ''web'', 3)] wq_new))
     ''default/web'' = 1 \<and>
   pending (fold (enqueue dedup_taskQueue demo_keyFunc)
        [(''default'', ''web'', 1), (''default'', ''web'', 2), (''default'', ''web'', 3)] wq_new)
     = [''default/web'']"
proof -
  let ?objs = "[(''default'', ''web'', 1::nat), (''default'', ''web'', 2), (''default'', ''web'', 3)]"
  have h1: "queue dedup_taskQueue = spec_queue (\<lambda>k q. q) (\<lambda>k q. q)"
    by (simp add: dedup_taskQueue_def)
  have h2: "demo_keyFunc (''default'', ''web'', 1) = Inr ''default/web'' \<and>
      demo_keyFunc (''default'', ''web'', 2) = Inr ''default/web'' \<and>
      demo_keyFunc (''default'', ''web'', 3) = Inr ''default/web''"
    by (simp add: demo_keyFunc_def)
  have h2': "\<forall>obj \<in> set ?objs. demo_keyFunc obj = Inr ''default/web''"
    using h2 by simp
  have h3: "wq_inv wq_new \<and> \<not> shutdown wq_new \<and> ''default/web'' \<notin> processing wq_new"
    by (simp add: wq_inv_def wq_new_def)
  have h4: "?objs \<noteq> []" by simp
  have one: "count_list (pending (fold (enqueue dedup_taskQueue demo_keyFunc) ?objs wq_new))
     ''default/web'' = 1"
    using h1 h2' h3 h4
      enqueue_dedup [where t = dedup_taskQueue and keyFunc = demo_keyFunc
        and objs = ?objs and key = "''default/web''" and q = wq_new
        and arl = "\<lambda>k q. q" and fg = "\<lambda>k q. q"]
    by blast
  have run: "pending (fold (enqueue dedup_taskQueue demo_keyFunc) ?objs wq_new)
     = [''default/web'']"
    by (simp add: dedup_simps)
  show ?thesis using h1 h2 h3 one run by blast
qed

end
